theory Spec2Isabelle
  imports Main "HOL-Library.Multiset"
begin

section \<open>The news scraping DAG (dags/news\_scraping\_dag.py)\<close>

text \<open>
  The DAG has three tasks: \<open>get_all_article_urls\<close> (discovery over the sections
  100..105), \<open>filter_new_urls\<close> (one \<open>SELECT\<close> against the table \<open>naver_news\<close>) and
  \<open>scrape_and_save_news\<close> (fetch one article, then one
  \<open>INSERT ... ON CONFLICT (url) DO NOTHING\<close>), the last one mapped over the new URLs.
  None of the tasks contains a \<open>try\<close>: whatever a collaborator raises leaves the task.
\<close>

subsection \<open>Values, errors, the table and the world\<close>

text \<open>The values found in the dictionary returned by \<open>get_news_content\<close>: a string or \<open>None\<close>.\<close>

datatype pyval = PyNone | PyStr string

text \<open>Python truthiness, as used by \<open>not news_data.get("title")\<close>.\<close>

fun truthy :: "pyval \<Rightarrow> bool" where
  "truthy PyNone = False"
| "truthy (PyStr s) = (s \<noteq> [])"

text \<open>
  What a task can raise: an exception of a crawling function (opaque reason), the
  \<open>KeyError\<close> of \<open>news_data[k]\<close>, a connection failure of the Postgres hook, the
  \<open>ValueError\<close> with which the database driver refuses a string parameter that contains
  the character NUL, and the rejection of a \<open>NULL\<close> key by the table.
\<close>

datatype error =
    SourceError string
  | KeyError string
  | StoreUnavailable
  | ValueError
  | NotNullViolation

text \<open>A string parameter the driver refuses.\<close>

fun has_nul :: "pyval \<Rightarrow> bool" where
  "has_nul PyNone = False"
| "has_nul (PyStr s) = (CHR 0x00 \<in> set s)"

text \<open>
  The text a column of the database can hold: a string without the character NUL.
  A nullable column holds a text or \<open>NULL\<close>. \<open>column\<close> is the value stored for a
  parameter; it is applied only to parameters the driver has accepted.
\<close>

typedef pgtext = "{s :: string. CHR 0x00 \<notin> set s}"
  morphisms text_of pg_text
  by (rule exI [of _ "[]"]) simp

fun column :: "pyval \<Rightarrow> pgtext option" where
  "column PyNone = None"
| "column (PyStr s) = Some (pg_text s)"

text \<open>
  Modelled from the spec: the table \<open>naver_news\<close>, whose \<open>CREATE TABLE\<close> is not part of
  the source. The spec gives it as keyed by the identifier (a unique string) with the
  columns title, summary, body and publication time; the names below are those of the
  \<open>INSERT\<close> statement. The key is a text, so the table rejects a \<open>NULL\<close> key; the
  other columns take \<open>NULL\<close>. The table is a list of rows, so that two rows with the
  same \<open>url\<close> can be written down and their absence is a property to prove.
\<close>

record news_row =
  url :: pgtext
  title :: "pgtext option"
  summary :: "pgtext option"
  content :: "pgtext option"
  news_time :: "pgtext option"

text \<open>
  The calls a run makes to its collaborators, in order (a record of the effects), and the
  world: the table, the calls made so far, and whether the store can be reached. Each
  task instance builds its own \<open>PostgresHook\<close> and connects at its own time: \<open>db_up\<close>
  says whether the connection of \<open>filter_new_urls\<close> can be made, \<open>insert_up\<close> whether
  those of the mapped task \<open>scrape_and_save_news\<close> can. The store may be up for the one
  and down for the other.
\<close>

datatype call =
    Fetch string
  | SelectExisting "string list"
  | InsertNews pyval pyval pyval pyval pyval

record world =
  naver_news :: "news_row list"
  db_up :: bool
  insert_up :: bool
  calls :: "call list"

definition stored_urls :: "world \<Rightarrow> string set" where
  "stored_urls w = set (map (\<lambda>r. text_of (url r)) (naver_news w))"

definition records_for :: "world \<Rightarrow> string \<Rightarrow> news_row list" where
  "records_for w u = filter (\<lambda>r. text_of (url r) = u) (naver_news w)"

definition log_call :: "call \<Rightarrow> world \<Rightarrow> world" where
  "log_call c w = w\<lparr>calls := calls w @ [c]\<rparr>"

subsection \<open>The collaborators\<close>

text \<open>
  \<open>get_urls_from_section\<close> and \<open>get_news_content\<close> live in \<open>src.crawling.crawling\<close>, which
  is not part of the source at hand: they are parameters. Each may raise; the second
  returns a dictionary or \<open>None\<close>. A dictionary is an association list read with
  \<open>map_of\<close>.
\<close>

type_synonym news_data = "(string \<times> pyval) list"
type_synonym discover = "nat \<Rightarrow> error + string list"
type_synonym fetch = "string \<Rightarrow> error + news_data option"

text \<open>\<open>d.get(k)\<close> and \<open>d[k]\<close>.\<close>

definition dict_get :: "news_data \<Rightarrow> string \<Rightarrow> pyval" where
  "dict_get d k = (case map_of d k of None \<Rightarrow> PyNone | Some v \<Rightarrow> v)"

definition dict_index :: "news_data \<Rightarrow> string \<Rightarrow> error + pyval" where
  "dict_index d k = (case map_of d k of None \<Rightarrow> Inl (KeyError k) | Some v \<Rightarrow> Inr v)"

subsection \<open>Task 1: get\_all\_article\_urls\<close>

text \<open>\<open>range(100, 106)\<close>.\<close>

definition section_ids :: "nat list" where
  "section_ids = [100, 101, 102, 103, 104, 105]"

text \<open>
  The loop \<open>for section_id in ...: all_urls.extend(get_urls_from_section(section_id))\<close>.
  An exception of the call ends the loop and the task.
\<close>

fun extend_all :: "discover \<Rightarrow> nat list \<Rightarrow> string list \<Rightarrow> error + string list" where
  "extend_all discover [] all_urls = Inr all_urls"
| "extend_all discover (section_id # rest) all_urls =
     (case discover section_id of
        Inl e \<Rightarrow> Inl e
      | Inr urls \<Rightarrow> extend_all discover rest (all_urls @ urls))"

text \<open>
  \<open>list(set(all_urls))\<close>: the set keeps one copy of each element (\<open>remdups\<close>), and the
  list enumerates the set in an order Python does not specify (it depends on the string
  hashes of the process). The enumeration order is the parameter \<open>order\<close>, of which only
  \<open>reorders\<close> is known.
\<close>

definition reorders :: "(string list \<Rightarrow> string list) \<Rightarrow> bool" where
  "reorders order = (\<forall>xs. mset (order xs) = mset xs)"

definition list_of_set :: "(string list \<Rightarrow> string list) \<Rightarrow> string list \<Rightarrow> string list" where
  "list_of_set order xs = order (remdups xs)"

definition get_all_article_urls ::
  "(string list \<Rightarrow> string list) \<Rightarrow> discover \<Rightarrow> error + string list" where
  "get_all_article_urls order discover =
     (case extend_all discover section_ids [] of
        Inl e \<Rightarrow> Inl e
      | Inr all_urls \<Rightarrow> Inr (list_of_set order all_urls))"

subsection \<open>Task 2: filter\_new\_urls\<close>

text \<open>
  \<open>hook.get_records("SELECT url FROM naver_news WHERE url = ANY(%s)", (urls,))\<close>: the
  \<open>url\<close> column of the rows whose key is among \<open>urls\<close>. The hook connects first and
  raises when the database cannot be reached; the driver then adapts the parameter and
  raises \<open>ValueError\<close> when one of the strings contains NUL, before anything is sent.
\<close>

definition get_records :: "world \<Rightarrow> string list \<Rightarrow> (error + string list) \<times> world" where
  "get_records w urls =
     (let w1 = log_call (SelectExisting urls) w in
      if \<not> db_up w then (Inl StoreUnavailable, w1)
      else if list_ex (\<lambda>u. CHR 0x00 \<in> set u) urls then (Inl ValueError, w1)
      else (Inr (map (\<lambda>r. text_of (url r))
                  (filter (\<lambda>r. text_of (url r) \<in> set urls) (naver_news w))), w1))"

definition filter_new_urls :: "world \<Rightarrow> string list \<Rightarrow> (error + string list) \<times> world" where
  "filter_new_urls w urls =
     (if urls = [] then (Inr [], w)
      else
        (case get_records w urls of
           (Inl e, w1) \<Rightarrow> (Inl e, w1)
         | (Inr existing_urls_tuples, w1) \<Rightarrow>
             (let existing_urls = set existing_urls_tuples;
                  new_urls = filter (\<lambda>u. u \<notin> existing_urls) urls
              in (Inr new_urls, w1))))"

subsection \<open>Task 3: scrape\_and\_save\_news\<close>

text \<open>
  \<open>hook.run("INSERT INTO naver_news (url, title, summary, content, news_time)
  VALUES (...) ON CONFLICT (url) DO NOTHING", parameters)\<close>. The hook connects first and
  raises when the database cannot be reached; the driver raises \<open>ValueError\<close> when a
  parameter contains NUL; the table rejects a \<open>NULL\<close> key. On a row with the same \<open>url\<close>
  the statement does nothing; otherwise it adds the row. It returns nothing to the task
  in either case.
\<close>

type_synonym insert_params = "pyval \<times> pyval \<times> pyval \<times> pyval \<times> pyval"

fun refused :: "insert_params \<Rightarrow> bool" where
  "refused (u, t, s, c, tm) = (has_nul u \<or> has_nul t \<or> has_nul s \<or> has_nul c \<or> has_nul tm)"

fun hook_run_insert :: "world \<Rightarrow> insert_params \<Rightarrow> (error + unit) \<times> world" where
  "hook_run_insert w (u, t, s, c, tm) =
     (let w1 = log_call (InsertNews u t s c tm) w in
      if \<not> insert_up w then (Inl StoreUnavailable, w1)
      else if refused (u, t, s, c, tm) then (Inl ValueError, w1)
      else
        (case u of
           PyNone \<Rightarrow> (Inl NotNullViolation, w1)
         | PyStr k \<Rightarrow>
             if k \<in> set (map (\<lambda>r. text_of (url r)) (naver_news w)) then (Inr (), w1)
             else (Inr (),
                   w1\<lparr>naver_news := naver_news w @
                        [\<lparr>url = pg_text k, title = column t, summary = column s,
                          content = column c, news_time = column tm\<rparr>]\<rparr>)))"

text \<open>
  The tuple \<open>(news_data["url"], news_data["title"], news_data["summary"],
  news_data["content"], news_data["time"])\<close>, evaluated left to right before \<open>hook.run\<close>
  is entered: the first missing key raises.
\<close>

definition insert_parameters :: "news_data \<Rightarrow> error + insert_params" where
  "insert_parameters d =
     (case dict_index d ''url'' of Inl e \<Rightarrow> Inl e | Inr u \<Rightarrow>
      case dict_index d ''title'' of Inl e \<Rightarrow> Inl e | Inr t \<Rightarrow>
      case dict_index d ''summary'' of Inl e \<Rightarrow> Inl e | Inr s \<Rightarrow>
      case dict_index d ''content'' of Inl e \<Rightarrow> Inl e | Inr c \<Rightarrow>
      case dict_index d ''time'' of Inl e \<Rightarrow> Inl e | Inr tm \<Rightarrow>
      Inr (u, t, s, c, tm))"

text \<open>
  \<open>not news_data or not news_data.get("title")\<close> for a dictionary: an empty dictionary
  is falsy, and so is a title that is missing, \<open>None\<close> or the empty string.
\<close>

definition no_title :: "news_data \<Rightarrow> bool" where
  "no_title d = (d = [] \<or> \<not> truthy (dict_get d ''title''))"

definition scrape_and_save_news :: "fetch \<Rightarrow> world \<Rightarrow> string \<Rightarrow> (error + unit) \<times> world" where
  "scrape_and_save_news fetch w u =
     (let w1 = log_call (Fetch u) w in
      case fetch u of
        Inl e \<Rightarrow> (Inl e, w1)
      | Inr None \<Rightarrow> (Inr (), w1)
      | Inr (Some news_data) \<Rightarrow>
          if no_title news_data then (Inr (), w1)
          else
            (case insert_parameters news_data of
               Inl e \<Rightarrow> (Inl e, w1)
             | Inr ps \<Rightarrow> hook_run_insert w1 ps))"

subsection \<open>The DAG\<close>

text \<open>
  \<open>scrape_and_save_news.expand(url=new_urls_to_scrape)\<close>: one task instance per element.
  The instances do not depend on each other: each runs whatever the others did, and each
  touches the table through one atomic statement, so a parallel execution is the
  execution of the instances in some order; here the order of the list, which is itself
  unspecified (see \<open>list_of_set\<close>). The result keeps, for each URL, what its instance
  returned or raised.
\<close>

type_synonym outcome = "string \<times> (error + unit)"

fun expand :: "fetch \<Rightarrow> world \<Rightarrow> string list \<Rightarrow> outcome list \<times> world" where
  "expand fetch w [] = ([], w)"
| "expand fetch w (u # us) =
     (case scrape_and_save_news fetch w u of
        (r, w1) \<Rightarrow> (case expand fetch w1 us of (rs, w2) \<Rightarrow> ((u, r) # rs, w2)))"

text \<open>
  The state Airflow gives the run: failed as soon as one task instance raised. A task
  whose upstream task failed is not run. Airflow maps a task over at most
  \<open>max_map_length\<close> elements (a setting, 1024 unless configured): a longer list fails
  \<open>filter_new_urls\<close> when it hands the list over, and no ingestion unit is run.
\<close>

datatype run_state = Success | Failed

definition max_map_length :: nat where
  "max_map_length = 1024"

fun raised :: "outcome \<Rightarrow> bool" where
  "raised (u, Inl e) = True"
| "raised (u, Inr v) = False"

definition naver_news_scraping_dag_with_db ::
  "(string list \<Rightarrow> string list) \<Rightarrow> discover \<Rightarrow> fetch \<Rightarrow> world \<Rightarrow> run_state \<times> outcome list \<times> world" where
  "naver_news_scraping_dag_with_db order discover fetch w =
     (case get_all_article_urls order discover of
        Inl e \<Rightarrow> (Failed, [], w)
      | Inr all_urls \<Rightarrow>
          (case filter_new_urls w all_urls of
             (Inl e, w1) \<Rightarrow> (Failed, [], w1)
           | (Inr new_urls_to_scrape, w1) \<Rightarrow>
               if max_map_length < length new_urls_to_scrape then (Failed, [], w1)
               else
                 (case expand fetch w1 new_urls_to_scrape of
                    (outs, w2) \<Rightarrow>
                      (if list_ex raised outs then Failed else Success, outs, w2))))"

subsection \<open>Notions used in the statements\<close>

text \<open>A sequence of \<open>INSERT\<close> statements with arbitrary parameters, run one after the other.\<close>

fun insert_all :: "world \<Rightarrow> insert_params list \<Rightarrow> world" where
  "insert_all w [] = w"
| "insert_all w (ps # rest) = insert_all (snd (hook_run_insert w ps)) rest"

text \<open>
  The key under which the ingestion unit of \<open>u\<close> asks the table to store its article, when
  it gets as far as the \<open>INSERT\<close> with parameters the driver accepts and a key that is
  not \<open>NULL\<close>. It is \<open>news_data["url"]\<close>, which nothing in the task ties to \<open>u\<close>.
\<close>

definition insert_key :: "fetch \<Rightarrow> string \<Rightarrow> string option" where
  "insert_key fetch u =
     (case fetch u of
        Inl e \<Rightarrow> None
      | Inr None \<Rightarrow> None
      | Inr (Some news_data) \<Rightarrow>
          if no_title news_data then None
          else
            (case insert_parameters news_data of
               Inl e \<Rightarrow> None
             | Inr (PyNone, t, s, c, tm) \<Rightarrow> None
             | Inr (PyStr k, t, s, c, tm) \<Rightarrow>
                 if refused (PyStr k, t, s, c, tm) then None else Some k))"

text \<open>The identifiers a section contributes (none when its discovery raises).\<close>

definition section_urls :: "discover \<Rightarrow> nat \<Rightarrow> string set" where
  "section_urls discover s = (case discover s of Inl e \<Rightarrow> {} | Inr urls \<Rightarrow> set urls)"

subsection \<open>Example inputs\<close>

definition article :: "string \<Rightarrow> string \<Rightarrow> news_data" where
  "article u t =
     [(''url'', PyStr u), (''title'', PyStr t), (''summary'', PyNone),
      (''content'', PyStr ''body''), (''time'', PyStr ''2025-07-14 09:00'')]"

definition stored_article :: "string \<Rightarrow> string \<Rightarrow> news_row" where
  "stored_article u t =
     \<lparr>url = pg_text u, title = Some (pg_text t), summary = None,
      content = Some (pg_text ''body''), news_time = Some (pg_text ''2025-07-14 09:00'')\<rparr>"

text \<open>Sections 100 and 101 list \<open>{A, B}\<close> and \<open>{B, C}\<close>; the other sections list nothing.\<close>

definition two_sections :: discover where
  "two_sections s =
     (if s = 100 then Inr [''A'', ''B''] else if s = 101 then Inr [''B'', ''C''] else Inr [])"

text \<open>Section 100 lists \<open>{A}\<close>; the other sections list nothing.\<close>

definition only_A :: discover where
  "only_A s = (if s = 100 then Inr [''A''] else Inr [])"

text \<open>The same, with the listing of section 101 raising.\<close>

definition section_101_down :: discover where
  "section_101_down s =
     (if s = 101 then Inl (SourceError ''timeout'') else two_sections s)"

text \<open>Every page has a title, \<open>C\<close> has none, \<open>B\<close> cannot be fetched.\<close>

definition all_titled :: fetch where
  "all_titled u = Inr (Some (article u ''headline''))"

definition c_untitled :: fetch where
  "c_untitled u = (if u = ''C'' then Inr (Some (article u [])) else all_titled u)"

definition b_unfetchable :: fetch where
  "b_unfetchable u = (if u = ''B'' then Inl (SourceError ''HTTP 500'') else all_titled u)"

text \<open>
  A reachable store holding \<open>A\<close>; the same store unreachable; and the same store
  answering the existence check and gone when the ingestion units run.
\<close>

definition store_A :: world where
  "store_A =
     \<lparr>naver_news = [stored_article ''A'' ''old headline''], db_up = True, insert_up = True,
      calls = []\<rparr>"

definition store_A_down :: world where
  "store_A_down = store_A\<lparr>db_up := False, insert_up := False\<rparr>"

definition store_A_lost :: world where
  "store_A_lost = store_A\<lparr>insert_up := False\<rparr>"

text \<open>A URL with the character NUL in it.\<close>

definition nul_url :: string where
  "nul_url = [CHR ''x'', CHR 0x00]"

section \<open>Facts about the tasks\<close>

subsection \<open>Texts of the database\<close>

lemma text_of_no_nul: "CHR 0x00 \<notin> set (text_of x)"
  using text_of [of x] by simp

lemma text_of_pg_text [simp]: "CHR 0x00 \<notin> set s \<Longrightarrow> text_of (pg_text s) = s"
  by (simp add: pg_text_inverse)

lemma pg_text_eq [simp]:
  "CHR 0x00 \<notin> set s \<Longrightarrow> CHR 0x00 \<notin> set t \<Longrightarrow> (pg_text s = pg_text t) = (s = t)"
  by (simp add: pg_text_inject)

lemma stored_urls_no_nul: "u \<in> stored_urls w \<Longrightarrow> CHR 0x00 \<notin> set u"
  by (auto simp: stored_urls_def text_of_no_nul)

lemma distinct_keys_texts:
  "distinct (map url rows) = distinct (map (\<lambda>r. text_of (url r)) rows)"
proof -
  have "map (\<lambda>r. text_of (url r)) rows = map text_of (map url rows)" by simp
  moreover have "inj_on text_of (set (map url rows))"
    by (rule inj_onI) (simp add: text_of_inject)
  ultimately show ?thesis by (simp only: distinct_map) simp
qed

subsection \<open>The existence check\<close>

lemma get_records_up:
  "db_up w \<Longrightarrow> \<not> list_ex (\<lambda>u. CHR 0x00 \<in> set u) urls \<Longrightarrow>
   get_records w urls =
     (Inr (map (\<lambda>r. text_of (url r)) (filter (\<lambda>r. text_of (url r) \<in> set urls) (naver_news w))),
      log_call (SelectExisting urls) w)"
  by (simp add: get_records_def)

lemma filter_new_urls_up:
  assumes up: "db_up w" and ne: "urls \<noteq> []"
    and ok: "\<not> list_ex (\<lambda>u. CHR 0x00 \<in> set u) urls"
  shows "filter_new_urls w urls =
     (Inr (filter (\<lambda>u. u \<notin> stored_urls w) urls), log_call (SelectExisting urls) w)"
proof -
  have "filter (\<lambda>u. u \<notin> set (map (\<lambda>r. text_of (url r))
            (filter (\<lambda>r. text_of (url r) \<in> set urls) (naver_news w)))) urls
        = filter (\<lambda>u. u \<notin> stored_urls w) urls"
    by (rule filter_cong) (auto simp: stored_urls_def)
  with up ne ok show ?thesis
    by (simp add: filter_new_urls_def get_records_up)
qed

lemma filter_new_urls_empty: "filter_new_urls w [] = (Inr [], w)"
  by (simp add: filter_new_urls_def)

lemma filter_new_urls_nul:
  "db_up w \<Longrightarrow> list_ex (\<lambda>u. CHR 0x00 \<in> set u) urls \<Longrightarrow>
   filter_new_urls w urls = (Inl ValueError, log_call (SelectExisting urls) w)"
  by (auto simp: filter_new_urls_def get_records_def)

lemma filter_new_urls_down:
  "\<not> db_up w \<Longrightarrow> urls \<noteq> [] \<Longrightarrow>
   filter_new_urls w urls = (Inl StoreUnavailable, log_call (SelectExisting urls) w)"
  by (simp add: filter_new_urls_def get_records_def)

subsection \<open>The conditional insert and the ingestion unit\<close>

lemma log_call_simps [simp]:
  "naver_news (log_call c w) = naver_news w"
  "db_up (log_call c w) = db_up w"
  "insert_up (log_call c w) = insert_up w"
  "calls (log_call c w) = calls w @ [c]"
  "stored_urls (log_call c w) = stored_urls w"
  "records_for (log_call c w) u = records_for w u"
  by (simp_all add: log_call_def stored_urls_def records_for_def)

text \<open>What an INSERT can do to the table: nothing, or one more row under a new key.\<close>

lemma hook_run_insert_cases:
  assumes "hook_run_insert w ps = (r, w')"
  shows "db_up w' = db_up w \<and> insert_up w' = insert_up w \<and>
         calls w' = calls w @ [case ps of (u, t, s, c, tm) \<Rightarrow> InsertNews u t s c tm] \<and>
         (naver_news w' = naver_news w \<or>
          (\<exists>row. insert_up w \<and> r = Inr () \<and> \<not> refused ps \<and> fst ps = PyStr (text_of (url row)) \<and>
                 text_of (url row) \<notin> stored_urls w \<and> naver_news w' = naver_news w @ [row]))"
  using assms
  by (cases ps) (auto simp: Let_def stored_urls_def text_of_pg_text split: if_splits pyval.splits)

lemma hook_run_insert_down:
  "\<not> insert_up w \<Longrightarrow> hook_run_insert w ps =
     (Inl StoreUnavailable, log_call (case ps of (u, t, s, c, tm) \<Rightarrow> InsertNews u t s c tm) w)"
  by (cases ps) (simp add: Let_def)

lemma hook_run_insert_stores:
  "insert_up w \<Longrightarrow> \<not> refused (PyStr k, t, s, c, tm) \<Longrightarrow>
   hook_run_insert w (PyStr k, t, s, c, tm) = (r, w') \<Longrightarrow> k \<in> stored_urls w'"
  by (auto simp: Let_def stored_urls_def text_of_pg_text split: if_splits)

lemma scrape_reaches_insert:
  assumes "fetch u = Inr (Some d)" and "\<not> no_title d" and "insert_parameters d = Inr ps"
  shows "scrape_and_save_news fetch w u = hook_run_insert (log_call (Fetch u) w) ps"
  using assms by (simp add: scrape_and_save_news_def Let_def)

lemma scrape_cases:
  assumes "scrape_and_save_news fetch w u = (r, w')"
  shows "db_up w' = db_up w \<and> insert_up w' = insert_up w \<and>
         (naver_news w' = naver_news w \<or>
          (\<exists>row. insert_up w \<and> r = Inr () \<and> insert_key fetch u = Some (text_of (url row)) \<and>
                 text_of (url row) \<notin> stored_urls w \<and> naver_news w' = naver_news w @ [row]))"
proof (cases "fetch u")
  case (Inl e)
  with assms show ?thesis by (auto simp: scrape_and_save_news_def Let_def)
next
  case (Inr nd)
  show ?thesis
  proof (cases nd)
    case None
    with Inr assms show ?thesis by (auto simp: scrape_and_save_news_def Let_def)
  next
    case (Some d)
    show ?thesis
    proof (cases "no_title d")
      case True
      with Some Inr assms show ?thesis by (auto simp: scrape_and_save_news_def Let_def)
    next
      case False
      show ?thesis
      proof (cases "insert_parameters d")
        case (Inl e)
        with False Some Inr assms show ?thesis by (auto simp: scrape_and_save_news_def Let_def)
      next
        case ps: (Inr ps)
        from Inr Some False ps assms
        have h: "hook_run_insert (log_call (Fetch u) w) ps = (r, w')"
          by (simp add: scrape_reaches_insert)
        from hook_run_insert_cases [OF h]
        show ?thesis using False Some Inr ps
          by (cases ps) (auto simp: insert_key_def simp del: refused.simps)
      qed
    qed
  qed
qed

lemma hook_run_insert_fetch_count:
  "hook_run_insert w ps = (r, w') \<Longrightarrow> count_list (calls w') (Fetch v) = count_list (calls w) (Fetch v)"
  by (drule hook_run_insert_cases) (auto split: prod.splits)

lemma scrape_fetch_count:
  assumes "scrape_and_save_news fetch w u = (r, w')"
  shows "count_list (calls w') (Fetch v) = count_list (calls w) (Fetch v) + (if v = u then 1 else 0)"
  using assms
  by (auto simp: scrape_and_save_news_def Let_def simp del: hook_run_insert.simps
           split: sum.splits option.splits if_splits
           dest!: hook_run_insert_fetch_count [where v = v])

lemma scrape_stored_mono:
  "scrape_and_save_news fetch w u = (r, w') \<Longrightarrow> stored_urls w \<subseteq> stored_urls w'"
  by (drule scrape_cases) (auto simp: stored_urls_def)

lemma scrape_absorbed:
  assumes "scrape_and_save_news fetch w u = (r, w')"
    and "\<And>k. insert_key fetch u = Some k \<Longrightarrow> k \<in> stored_urls w"
  shows "naver_news w' = naver_news w"
  using scrape_cases [OF assms(1)] assms(2) by auto

lemma scrape_down:
  "\<not> insert_up w \<Longrightarrow> scrape_and_save_news fetch w u = (r, w') \<Longrightarrow> naver_news w' = naver_news w"
  by (drule scrape_cases) auto

lemma scrape_stores:
  assumes "insert_up w" and "insert_key fetch u = Some k"
    and "scrape_and_save_news fetch w u = (r, w')"
  shows "k \<in> stored_urls w'"
proof -
  from assms(2) obtain d t s c tm where
    f: "fetch u = Inr (Some d)" and nt: "\<not> no_title d"
    and ps: "insert_parameters d = Inr (PyStr k, t, s, c, tm)"
    and ok: "\<not> refused (PyStr k, t, s, c, tm)"
    by (auto simp: insert_key_def simp del: refused.simps
             split: sum.splits option.splits if_splits pyval.splits)
  from assms(3) f nt ps
  have "hook_run_insert (log_call (Fetch u) w) (PyStr k, t, s, c, tm) = (r, w')"
    by (simp add: scrape_reaches_insert)
  moreover have "insert_up (log_call (Fetch u) w)" using assms(1) by simp
  ultimately show ?thesis using ok by (rule hook_run_insert_stores [rotated 2])
qed

subsection \<open>The mapped task\<close>

lemma expand_keys:
  "expand fetch w us = (outs, w') \<Longrightarrow> map fst outs = us"
  by (induction us arbitrary: w outs w') (auto split: prod.splits)

lemma expand_db_up:
  "expand fetch w us = (outs, w') \<Longrightarrow> db_up w' = db_up w \<and> insert_up w' = insert_up w"
proof (induction us arbitrary: w outs w')
  case Nil
  then show ?case by simp
next
  case (Cons u us)
  then show ?case
    by (auto split: prod.splits dest!: scrape_cases)
qed

lemma expand_stored_mono:
  "expand fetch w us = (outs, w') \<Longrightarrow> stored_urls w \<subseteq> stored_urls w'"
proof (induction us arbitrary: w outs w')
  case Nil
  then show ?case by simp
next
  case (Cons u us)
  from Cons.prems obtain r w1 rs where
    1: "scrape_and_save_news fetch w u = (r, w1)" and 2: "expand fetch w1 us = (rs, w')"
    by (auto split: prod.splits)
  from scrape_stored_mono [OF 1] Cons.IH [OF 2] show ?case by blast
qed

lemma expand_distinct:
  "expand fetch w us = (outs, w') \<Longrightarrow> distinct (map url (naver_news w)) \<Longrightarrow>
   distinct (map url (naver_news w'))"
proof (induction us arbitrary: w outs w')
  case Nil
  then show ?case by simp
next
  case (Cons u us)
  from Cons.prems(1) obtain r w1 rs where
    1: "scrape_and_save_news fetch w u = (r, w1)" and 2: "expand fetch w1 us = (rs, w')"
    by (auto split: prod.splits)
  from scrape_cases [OF 1] Cons.prems(2) have "distinct (map url (naver_news w1))"
    by (auto simp: stored_urls_def)
  with Cons.IH [OF 2] show ?case .
qed

lemma expand_absorbed:
  "expand fetch w us = (outs, w') \<Longrightarrow>
   (\<And>u k. u \<in> set us \<Longrightarrow> insert_key fetch u = Some k \<Longrightarrow> k \<in> stored_urls w) \<Longrightarrow>
   naver_news w' = naver_news w"
proof (induction us arbitrary: w outs w')
  case Nil
  then show ?case by simp
next
  case (Cons u us)
  from Cons.prems(1) obtain r w1 rs where
    1: "scrape_and_save_news fetch w u = (r, w1)" and 2: "expand fetch w1 us = (rs, w')"
    by (auto split: prod.splits)
  have eq: "naver_news w1 = naver_news w"
    by (rule scrape_absorbed [OF 1]) (rule Cons.prems(2) [of u], simp_all)
  then have st: "stored_urls w1 = stored_urls w" by (simp add: stored_urls_def)
  have "naver_news w' = naver_news w1"
  proof (rule Cons.IH [OF 2])
    fix v k
    assume "v \<in> set us" and "insert_key fetch v = Some k"
    with Cons.prems(2) [of v k] st show "k \<in> stored_urls w1" by simp
  qed
  with eq show ?case by simp
qed

lemma expand_down:
  "expand fetch w us = (outs, w') \<Longrightarrow> \<not> insert_up w \<Longrightarrow> naver_news w' = naver_news w"
proof (induction us arbitrary: w outs w')
  case Nil
  then show ?case by simp
next
  case (Cons u us)
  from Cons.prems(1) obtain r w1 rs where
    1: "scrape_and_save_news fetch w u = (r, w1)" and 2: "expand fetch w1 us = (rs, w')"
    by (auto split: prod.splits)
  from scrape_cases [OF 1] Cons.prems(2) have "naver_news w1 = naver_news w" "\<not> insert_up w1"
    by auto
  with Cons.IH [OF 2] show ?case by simp
qed

lemma expand_stores:
  "expand fetch w us = (outs, w') \<Longrightarrow> insert_up w \<Longrightarrow> u \<in> set us \<Longrightarrow>
   insert_key fetch u = Some k \<Longrightarrow> k \<in> stored_urls w'"
proof (induction us arbitrary: w outs w')
  case Nil
  then show ?case by simp
next
  case (Cons v us)
  from Cons.prems(1) obtain r w1 rs where
    1: "scrape_and_save_news fetch w v = (r, w1)" and 2: "expand fetch w1 us = (rs, w')"
    by (auto split: prod.splits)
  from scrape_cases [OF 1] Cons.prems(2) have up1: "insert_up w1" by simp
  show ?case
  proof (cases "u = v")
    case True
    with scrape_stores [OF Cons.prems(2) _ 1] Cons.prems(4) have "k \<in> stored_urls w1" by simp
    with expand_stored_mono [OF 2] show ?thesis by blast
  next
    case False
    with Cons.prems(3) have "u \<in> set us" by simp
    from Cons.IH [OF 2 up1 this Cons.prems(4)] show ?thesis .
  qed
qed

lemma expand_fetch_count:
  "expand fetch w us = (outs, w') \<Longrightarrow>
   count_list (calls w') (Fetch v) = count_list (calls w) (Fetch v) + count_list us v"
proof (induction us arbitrary: w outs w')
  case Nil
  then show ?case by simp
next
  case (Cons u us)
  from Cons.prems(1) obtain r w1 rs where
    1: "scrape_and_save_news fetch w u = (r, w1)" and 2: "expand fetch w1 us = (rs, w')"
    by (auto split: prod.splits)
  from scrape_fetch_count [OF 1, of v] Cons.IH [OF 2] show ?case by simp
qed

section \<open>At most one record per URL\<close>

lemma hook_run_insert_distinct:
  "hook_run_insert w ps = (r, w') \<Longrightarrow> distinct (map url (naver_news w)) \<Longrightarrow>
   distinct (map url (naver_news w'))"
  by (drule hook_run_insert_cases) (auto simp: stored_urls_def)

lemma insert_all_distinct:
  "distinct (map url (naver_news w)) \<Longrightarrow> distinct (map url (naver_news (insert_all w pss)))"
proof (induction pss arbitrary: w)
  case Nil
  then show ?case by simp
next
  case (Cons ps pss)
  have "distinct (map url (naver_news (snd (hook_run_insert w ps))))"
    by (rule hook_run_insert_distinct [OF surjective_pairing Cons.prems])
  from Cons.IH [OF this] show ?case by simp
qed

lemma distinct_key_at_most_one:
  "distinct (map f xs) \<Longrightarrow> length (filter (\<lambda>x. f x = k) xs) \<le> 1"
proof (induction xs)
  case Nil
  then show ?case by simp
next
  case (Cons a xs)
  show ?case
  proof (cases "f a = k")
    case True
    with Cons.prems have "k \<notin> f ` set xs" by simp
    then have "\<forall>x\<in>set xs. f x \<noteq> k" by blast
    then have "filter (\<lambda>x. f x = k) xs = []" by (simp add: filter_empty_conv)
    with True show ?thesis by simp
  next
    case False
    with Cons show ?thesis by simp
  qed
qed

lemma distinct_key_exactly_one:
  assumes "distinct (map f xs)" and "k \<in> f ` set xs"
  shows "length (filter (\<lambda>x. f x = k) xs) = 1"
proof -
  from assms(2) have "filter (\<lambda>x. f x = k) xs \<noteq> []"
    by (auto simp: filter_empty_conv)
  then have "0 < length (filter (\<lambda>x. f x = k) xs)" by simp
  with distinct_key_at_most_one [OF assms(1), of k] show ?thesis by linarith
qed

lemma scrape_records_for:
  assumes "u \<in> stored_urls w"
  shows "records_for (snd (scrape_and_save_news fetch w v)) u = records_for w u"
  using scrape_cases [OF surjective_pairing, of fetch w v] assms
  by (auto simp: records_for_def)

lemma hook_run_insert_records_for:
  assumes "u \<in> stored_urls w"
  shows "records_for (snd (hook_run_insert w ps)) u = records_for w u"
  using hook_run_insert_cases [OF surjective_pairing, of w ps] assms
  by (auto simp: records_for_def)

text \<open>
  C1. At most one record per identifier exists in the table. A table without two rows of
  the same \<open>url\<close> stays so under any sequence of conditional inserts, whatever their
  parameters, and under any sequence of ingestion units; and an insert (or a whole
  ingestion unit) on a table that already holds a record for \<open>u\<close> leaves exactly one
  record for \<open>u\<close>.
\<close>

theorem insert_keeps_one_record_per_url:
  assumes "distinct (map url (naver_news w))"
  shows "distinct (map url (naver_news (insert_all w pss))) \<and>
         distinct (map url (naver_news (snd (expand fetch w us)))) \<and>
         (\<forall>k. length (records_for (insert_all w pss) k) \<le> 1) \<and>
         (\<forall>k. length (records_for (snd (expand fetch w us)) k) \<le> 1) \<and>
         (u \<in> stored_urls w \<longrightarrow>
            length (records_for (snd (hook_run_insert w (PyStr u, t, s, c, tm))) u) = 1 \<and>
            length (records_for (snd (scrape_and_save_news fetch w u)) u) = 1)"
proof -
  have a: "distinct (map url (naver_news (insert_all w pss)))"
    by (rule insert_all_distinct [OF assms])
  have b: "distinct (map url (naver_news (snd (expand fetch w us))))"
    by (rule expand_distinct [OF surjective_pairing assms])
  have one: "length (records_for w u) = 1" if "u \<in> stored_urls w"
    using distinct_key_exactly_one [OF assms [unfolded distinct_keys_texts], of u] that
    by (simp add: records_for_def stored_urls_def)
  have c: "length (records_for (insert_all w pss) k) \<le> 1" for k
    unfolding records_for_def by (rule distinct_key_at_most_one [OF a [unfolded distinct_keys_texts]])
  have d: "length (records_for (snd (expand fetch w us)) k) \<le> 1" for k
    unfolding records_for_def by (rule distinct_key_at_most_one [OF b [unfolded distinct_keys_texts]])
  have e: "length (records_for (snd (hook_run_insert w (PyStr u, t, s, c, tm))) u) = 1"
    if "u \<in> stored_urls w"
    using one [OF that] by (simp only: hook_run_insert_records_for [OF that])
  have f: "length (records_for (snd (scrape_and_save_news fetch w u)) u) = 1"
    if "u \<in> stored_urls w"
    using one [OF that] by (simp only: scrape_records_for [OF that])
  from a b c d e f show ?thesis by blast
qed

theorem insert_keeps_one_record_per_url_witness:
  "distinct (map url (naver_news store_A)) \<and>
   naver_news (insert_all store_A
      [(PyStr ''A'', PyStr ''new headline'', PyNone, PyNone, PyNone),
       (PyStr ''B'', PyStr ''b'', PyNone, PyNone, PyNone),
       (PyStr ''B'', PyStr ''b again'', PyNone, PyNone, PyNone)])
     = [stored_article ''A'' ''old headline'',
        \<lparr>url = pg_text ''B'', title = Some (pg_text ''b''), summary = None, content = None,
          news_time = None\<rparr>] \<and>
   distinct (map url (naver_news (insert_all store_A
      [(PyStr ''A'', PyStr ''new headline'', PyNone, PyNone, PyNone),
       (PyStr ''B'', PyStr ''b'', PyNone, PyNone, PyNone),
       (PyStr ''B'', PyStr ''b again'', PyNone, PyNone, PyNone)]))) \<and>
   ''A'' \<in> stored_urls store_A \<and>
   length (records_for (snd (scrape_and_save_news all_titled store_A ''A'')) ''A'') = 1"
proof -
  have h: "distinct (map url (naver_news store_A))"
    by (simp add: store_A_def)
  have m: "''A'' \<in> stored_urls store_A"
    by (simp add: store_A_def stored_urls_def stored_article_def)
  have e: "naver_news (insert_all store_A
      [(PyStr ''A'', PyStr ''new headline'', PyNone, PyNone, PyNone),
       (PyStr ''B'', PyStr ''b'', PyNone, PyNone, PyNone),
       (PyStr ''B'', PyStr ''b again'', PyNone, PyNone, PyNone)])
     = [stored_article ''A'' ''old headline'',
        \<lparr>url = pg_text ''B'', title = Some (pg_text ''b''), summary = None, content = None,
          news_time = None\<rparr>]"
    by (simp add: store_A_def stored_article_def log_call_def Let_def)
  from insert_keeps_one_record_per_url [OF h, where u = "''A''" and fetch = all_titled] h m e
  show ?thesis by blast
qed

section \<open>Deduplication\<close>

text \<open>
  C2. The deduplication step returns exactly the candidates that are not stored. When the
  store answers and the driver accepts the candidates (none of them contains the
  character NUL), \<open>filter_new_urls\<close> returns a list; every element of it is a candidate
  with no record in the table, and every candidate with no record in the table is in it.
  (The list is the candidates' own list with the stored ones removed, so it repeats
  nothing that the candidates do not repeat.)
\<close>

theorem filter_new_urls_exact:
  assumes "db_up w" and "\<forall>c\<in>set C. CHR 0x00 \<notin> set c"
  shows "\<exists>new. fst (filter_new_urls w C) = Inr new \<and>
           set new = {c \<in> set C. c \<notin> stored_urls w} \<and>
           new = filter (\<lambda>c. c \<notin> stored_urls w) C \<and>
           naver_news (snd (filter_new_urls w C)) = naver_news w"
proof (cases "C = []")
  case True
  then show ?thesis by (simp add: filter_new_urls_empty)
next
  case False
  from assms(2) have "\<not> list_ex (\<lambda>u. CHR 0x00 \<in> set u) C" by (simp add: list_ex_iff)
  with assms(1) False show ?thesis by (simp add: filter_new_urls_up)
qed

theorem filter_new_urls_exact_witness:
  "db_up store_A \<and> list_all (\<lambda>c. CHR 0x00 \<notin> set c) [''A'', ''B'', ''C''] \<and>
   fst (filter_new_urls store_A [''A'', ''B'', ''C'']) = Inr [''B'', ''C''] \<and>
   {c \<in> set [''A'', ''B'', ''C'']. c \<notin> stored_urls store_A} = {''B'', ''C''}"
proof -
  have h: "db_up store_A" by (simp add: store_A_def)
  have n: "\<forall>c\<in>set [''A'', ''B'', ''C'']. CHR 0x00 \<notin> set c" by simp
  have s: "stored_urls store_A = {''A''}"
    by (simp add: store_A_def stored_urls_def stored_article_def)
  from filter_new_urls_exact [OF h n] h s
  show ?thesis by auto
qed

text \<open>
  Outside the restriction the task raises: for a candidate with the character NUL in it
  the driver refuses the parameter of the \<open>SELECT\<close>.
\<close>

lemma filter_new_urls_nul_url:
  "filter_new_urls store_A [''A'', nul_url] =
     (Inl ValueError, log_call (SelectExisting [''A'', nul_url]) store_A)"
proof -
  have "db_up store_A" by (simp add: store_A_def)
  then show ?thesis by (simp add: filter_new_urls_nul nul_url_def)
qed

section \<open>Articles without a title\<close>

text \<open>
  C5. When the fetch of \<open>u\<close> gives no article (\<open>None\<close>, or an empty dictionary), or an
  article whose title is missing, \<open>None\<close> or empty, the ingestion unit returns normally
  after the fetch alone: the only call it has made is the fetch, so no \<open>INSERT\<close> was
  attempted (it returns normally even when the database is down), and the table is as
  before.
\<close>

theorem untitled_never_inserted:
  assumes "fetch u = Inr None \<or> (\<exists>d. fetch u = Inr (Some d) \<and> \<not> truthy (dict_get d ''title''))"
  shows "scrape_and_save_news fetch w u = (Inr (), log_call (Fetch u) w) \<and>
         naver_news (snd (scrape_and_save_news fetch w u)) = naver_news w \<and>
         calls (snd (scrape_and_save_news fetch w u)) = calls w @ [Fetch u]"
  using assms by (auto simp: scrape_and_save_news_def no_title_def Let_def)

theorem untitled_never_inserted_witness:
  "c_untitled ''C'' = Inr (Some (article ''C'' [])) \<and>
   truthy (dict_get (article ''C'' []) ''title'') = False \<and>
   scrape_and_save_news c_untitled store_A ''C'' = (Inr (), log_call (Fetch ''C'') store_A) \<and>
   naver_news (snd (scrape_and_save_news c_untitled store_A ''C'')) = naver_news store_A \<and>
   calls (snd (scrape_and_save_news c_untitled store_A ''C'')) = [Fetch ''C'']"
proof -
  have f: "c_untitled ''C'' = Inr (Some (article ''C'' []))"
    by (simp add: c_untitled_def)
  have t: "\<not> truthy (dict_get (article ''C'' []) ''title'')"
    by (simp add: article_def dict_get_def)
  have c: "calls store_A = []" by (simp add: store_A_def)
  from f t have h: "c_untitled ''C'' = Inr None \<or>
      (\<exists>d. c_untitled ''C'' = Inr (Some d) \<and> \<not> truthy (dict_get d ''title''))"
    by blast
  from untitled_never_inserted [of c_untitled "''C''" store_A, OF h] f t c
  show ?thesis by simp
qed

section \<open>An existing record is never overwritten\<close>

text \<open>
  C10. When the table holds a record for \<open>u\<close>, running an ingestion unit leaves the
  records for \<open>u\<close> as they are, field for field, whatever the fetch returns (in
  particular a different title, summary, content or time for \<open>u\<close>). This holds for the
  unit of \<open>u\<close> itself and for the unit of any other URL \<open>v\<close>.
\<close>

theorem existing_record_untouched:
  assumes "u \<in> stored_urls w"
  shows "records_for (snd (scrape_and_save_news fetch w u)) u = records_for w u \<and>
         records_for (snd (scrape_and_save_news fetch w v)) u = records_for w u"
  using assms by (simp add: scrape_records_for)

theorem existing_record_untouched_witness:
  "''A'' \<in> stored_urls store_A \<and>
   all_titled ''A'' = Inr (Some (article ''A'' ''headline'')) \<and>
   records_for store_A ''A'' = [stored_article ''A'' ''old headline''] \<and>
   records_for (snd (scrape_and_save_news all_titled store_A ''A'')) ''A''
     = [stored_article ''A'' ''old headline'']"
proof -
  have m: "''A'' \<in> stored_urls store_A"
    by (simp add: store_A_def stored_urls_def stored_article_def)
  have r: "records_for store_A ''A'' = [stored_article ''A'' ''old headline'']"
    by (simp add: store_A_def records_for_def stored_article_def)
  have f: "all_titled ''A'' = Inr (Some (article ''A'' ''headline''))"
    by (simp add: all_titled_def)
  from existing_record_untouched [OF m, of all_titled] m r f show ?thesis by simp
qed

section \<open>Discovery\<close>

lemma reorders_set: "reorders order \<Longrightarrow> set (order xs) = set xs"
  by (metis reorders_def mset_eq_setD)

lemma reorders_distinct: "reorders order \<Longrightarrow> distinct (order xs) = distinct xs"
  by (metis reorders_def mset_eq_imp_distinct_iff)

lemma list_of_set_set: "reorders order \<Longrightarrow> set (list_of_set order xs) = set xs"
  by (simp add: list_of_set_def reorders_set)

lemma list_of_set_distinct: "reorders order \<Longrightarrow> distinct (list_of_set order xs)"
  by (simp add: list_of_set_def reorders_distinct)

lemma extend_all_set:
  "extend_all discover ss acc = Inr all_urls \<Longrightarrow>
   set all_urls = set acc \<union> (\<Union>s\<in>set ss. section_urls discover s)"
proof (induction ss arbitrary: acc)
  case Nil
  then show ?case by simp
next
  case (Cons s ss)
  from Cons.prems obtain urls where d: "discover s = Inr urls"
    and r: "extend_all discover ss (acc @ urls) = Inr all_urls"
    by (auto split: sum.splits)
  from Cons.IH [OF r] d show ?case by (auto simp: section_urls_def)
qed

lemma extend_all_raises:
  "s \<in> set ss \<Longrightarrow> discover s = Inl e \<Longrightarrow> \<exists>e'. extend_all discover ss acc = Inl e'"
  by (induction ss arbitrary: acc) (auto split: sum.splits)

lemma extend_all_returns:
  "(\<And>s. s \<in> set ss \<Longrightarrow> \<exists>urls. discover s = Inr urls) \<Longrightarrow>
   \<exists>all_urls. extend_all discover ss acc = Inr all_urls"
proof (induction ss arbitrary: acc)
  case Nil
  then show ?case by simp
next
  case (Cons s ss)
  from Cons.prems [of s] obtain urls where d: "discover s = Inr urls" by auto
  from Cons.IH [of "acc @ urls"] Cons.prems obtain all_urls
    where "extend_all discover ss (acc @ urls) = Inr all_urls" by auto
  with d show ?case by simp
qed

lemma get_all_article_urls_set:
  assumes "reorders order" and "get_all_article_urls order discover = Inr urls"
  shows "distinct urls" and "set urls = (\<Union>s\<in>set section_ids. section_urls discover s)"
proof -
  from assms(2) obtain all_urls where e: "extend_all discover section_ids [] = Inr all_urls"
    and u: "urls = list_of_set order all_urls"
    by (auto simp: get_all_article_urls_def split: sum.splits)
  from u assms(1) show "distinct urls" by (simp add: list_of_set_distinct)
  from u assms(1) extend_all_set [OF e]
  show "set urls = (\<Union>s\<in>set section_ids. section_urls discover s)"
    by (simp add: list_of_set_set)
qed

subsection \<open>The run\<close>

lemma filter_new_urls_cases:
  assumes "filter_new_urls w urls = (r, w1)"
  shows "naver_news w1 = naver_news w \<and> db_up w1 = db_up w \<and> insert_up w1 = insert_up w \<and>
         (\<forall>v. count_list (calls w1) (Fetch v) = count_list (calls w) (Fetch v)) \<and>
         (r = Inr (filter (\<lambda>u. u \<notin> stored_urls w) urls) \<and>
            (urls = [] \<or> db_up w \<and> \<not> list_ex (\<lambda>u. CHR 0x00 \<in> set u) urls) \<or>
          r = Inl StoreUnavailable \<and> \<not> db_up w \<and> urls \<noteq> [] \<or>
          r = Inl ValueError \<and> db_up w \<and> list_ex (\<lambda>u. CHR 0x00 \<in> set u) urls)"
proof (cases "urls = []")
  case True
  with assms show ?thesis by (auto simp: filter_new_urls_empty)
next
  case False
  show ?thesis
  proof (cases "db_up w")
    case down: False
    with False assms show ?thesis by (auto simp: filter_new_urls_down)
  next
    case True
    show ?thesis
    proof (cases "list_ex (\<lambda>u. CHR 0x00 \<in> set u) urls")
      case nul: True
      with True assms show ?thesis by (auto simp: filter_new_urls_nul)
    next
      case ok: False
      with True False assms show ?thesis by (auto simp: filter_new_urls_up)
    qed
  qed
qed

lemma dag_raise:
  "get_all_article_urls order discover = Inl e \<Longrightarrow>
   naver_news_scraping_dag_with_db order discover fetch w = (Failed, [], w)"
  by (simp add: naver_news_scraping_dag_with_db_def)

text \<open>A run that gets to the mapped task.\<close>

lemma dag_fan_out:
  assumes "get_all_article_urls order discover = Inr urls"
    and "filter_new_urls w urls = (Inr new, w1)"
    and "length new \<le> max_map_length"
  shows "naver_news_scraping_dag_with_db order discover fetch w =
           (if list_ex raised (fst (expand fetch w1 new)) then Failed else Success,
            fst (expand fetch w1 new), snd (expand fetch w1 new))"
  using assms by (simp add: naver_news_scraping_dag_with_db_def split: prod.splits)

lemma dag_too_long:
  assumes "get_all_article_urls order discover = Inr urls"
    and "filter_new_urls w urls = (Inr new, w1)"
    and "max_map_length < length new"
  shows "naver_news_scraping_dag_with_db order discover fetch w = (Failed, [], w1)"
  using assms by (simp add: naver_news_scraping_dag_with_db_def)

lemma dag_no_fan_out:
  assumes "get_all_article_urls order discover = Inr urls"
    and "filter_new_urls w urls = (Inl e, w1)"
  shows "naver_news_scraping_dag_with_db order discover fetch w = (Failed, [], w1)"
  using assms by (simp add: naver_news_scraping_dag_with_db_def)

section \<open>Each candidate once\<close>

lemma count_list_distinct_le: "distinct xs \<Longrightarrow> count_list xs x \<le> 1"
  by (induction xs) auto

lemma count_list_distinct_mem: "distinct xs \<Longrightarrow> x \<in> set xs \<Longrightarrow> count_list xs x = 1"
  by (induction xs) auto

lemma dag_fetch_count:
  assumes "distinct urls" and "get_all_article_urls order discover = Inr urls"
  shows "count_list (calls (snd (snd (naver_news_scraping_dag_with_db order discover fetch w)))) (Fetch u)
         \<le> count_list (calls w) (Fetch u) + 1"
proof (cases "filter_new_urls w urls")
  case (Pair r w1)
  note c = filter_new_urls_cases [OF Pair]
  show ?thesis
  proof (cases r)
    case (Inl e)
    with Pair assms(2) c show ?thesis by (simp add: dag_no_fan_out)
  next
    case (Inr new)
    with c have "new = filter (\<lambda>u. u \<notin> stored_urls w) urls" by auto
    with assms(1) have "distinct new" by simp
    then have "count_list new u \<le> 1" by (rule count_list_distinct_le)
    moreover have "count_list (calls (snd (expand fetch w1 new))) (Fetch u)
        = count_list (calls w1) (Fetch u) + count_list new u"
      by (rule expand_fetch_count [OF surjective_pairing])
    ultimately show ?thesis using Pair Inr assms(2) c
      by (cases "max_map_length < length new") (simp_all add: dag_fan_out dag_too_long)
  qed
qed

text \<open>
  C6. When discovery returns for every section, the candidate list holds exactly the
  identifiers the sections listed, each of them once, however many sections listed it;
  and the run that follows fetches no identifier more than once.
\<close>

theorem candidates_once:
  assumes "reorders order" and "get_all_article_urls order discover = Inr urls"
  shows "distinct urls \<and>
         set urls = (\<Union>s\<in>set section_ids. section_urls discover s) \<and>
         (\<forall>s\<in>set section_ids. \<forall>u\<in>section_urls discover s. count_list urls u = 1) \<and>
         (\<forall>u. count_list (calls (snd (snd (naver_news_scraping_dag_with_db order discover fetch w)))) (Fetch u)
               \<le> count_list (calls w) (Fetch u) + 1)"
proof -
  note s = get_all_article_urls_set [OF assms]
  have "count_list urls u = 1" if "s \<in> set section_ids" and "u \<in> section_urls discover s" for s u
  proof -
    from that s(2) have "u \<in> set urls" by blast
    with s(1) show ?thesis by (rule count_list_distinct_mem)
  qed
  with s dag_fetch_count [OF s(1) assms(2)] show ?thesis by blast
qed

lemma two_sections_urls: "get_all_article_urls rev two_sections = Inr [''C'', ''B'', ''A'']"
  by (simp add: get_all_article_urls_def section_ids_def two_sections_def list_of_set_def)

lemma reorders_rev: "reorders rev"
  by (simp add: reorders_def)

lemma reorders_id: "reorders id"
  by (simp add: reorders_def)

theorem candidates_once_witness:
  "reorders rev \<and> get_all_article_urls rev two_sections = Inr [''C'', ''B'', ''A''] \<and>
   section_urls two_sections 100 = {''A'', ''B''} \<and>
   section_urls two_sections 101 = {''B'', ''C''} \<and>
   count_list [''C'', ''B'', ''A''] ''B'' = 1 \<and>
   count_list (calls (snd (snd (naver_news_scraping_dag_with_db rev two_sections all_titled store_A))))
     (Fetch ''B'') \<le> 1"
proof -
  have c: "calls store_A = []" by (simp add: store_A_def)
  have a: "section_urls two_sections 100 = {''A'', ''B''}"
    and b: "section_urls two_sections 101 = {''B'', ''C''}"
    by (simp_all add: section_urls_def two_sections_def)
  from candidates_once [OF reorders_rev two_sections_urls, of all_titled store_A]
  have "count_list (calls (snd (snd (naver_news_scraping_dag_with_db rev two_sections all_titled store_A))))
     (Fetch ''B'') \<le> count_list (calls store_A) (Fetch ''B'') + 1"
    by blast
  with c a b reorders_rev two_sections_urls show ?thesis by simp
qed

section \<open>Nothing new\<close>

text \<open>
  C7. When the candidate list is empty, or the store answers and every candidate has a
  record, the deduplication step returns the empty list and the run succeeds with no
  ingestion unit: no outcome, no fetch and no \<open>INSERT\<close>. The only call of the run is the
  \<open>SELECT\<close> of the existence check, and not even that one when there is no candidate.
\<close>

theorem nothing_new_nothing_done:
  assumes "get_all_article_urls order discover = Inr urls"
    and "urls = [] \<or> (db_up w \<and> set urls \<subseteq> stored_urls w)"
  shows "fst (filter_new_urls w urls) = Inr [] \<and>
         naver_news_scraping_dag_with_db order discover fetch w =
           (Success, [], if urls = [] then w else log_call (SelectExisting urls) w)"
proof (cases "urls = []")
  case True
  with assms(1) show ?thesis
    by (simp add: naver_news_scraping_dag_with_db_def filter_new_urls_empty)
next
  case False
  with assms(2) have up: "db_up w" and sub: "set urls \<subseteq> stored_urls w" by auto
  from sub have "filter (\<lambda>u. u \<notin> stored_urls w) urls = []"
    by (auto simp: filter_empty_conv)
  moreover from sub have "\<not> list_ex (\<lambda>u. CHR 0x00 \<in> set u) urls"
    by (auto simp: list_ex_iff dest: stored_urls_no_nul)
  ultimately have "filter_new_urls w urls = (Inr [], log_call (SelectExisting urls) w)"
    using up False by (simp add: filter_new_urls_up)
  with assms(1) False show ?thesis
    by (simp add: naver_news_scraping_dag_with_db_def)
qed

theorem nothing_new_nothing_done_witness:
  "get_all_article_urls id only_A = Inr [''A''] \<and> db_up store_A \<and>
   stored_urls store_A = {''A''} \<and>
   naver_news_scraping_dag_with_db id only_A all_titled store_A =
     (Success, [], log_call (SelectExisting [''A'']) store_A)"
proof -
  have g: "get_all_article_urls id only_A = Inr [''A'']"
    by (simp add: get_all_article_urls_def section_ids_def only_A_def list_of_set_def)
  have up: "db_up store_A" by (simp add: store_A_def)
  have s: "stored_urls store_A = {''A''}"
    by (simp add: store_A_def stored_urls_def stored_article_def)
  from up s have "[''A''] = [] \<or> (db_up store_A \<and> set [''A''] \<subseteq> stored_urls store_A)"
    by simp
  from nothing_new_nothing_done [OF g this, of all_titled] g up s show ?thesis by simp
qed

section \<open>Running the pipeline twice\<close>

text \<open>What a run leaves behind: the fan-out over the new URLs, or the table as it was.\<close>

lemma dag_effect:
  assumes "get_all_article_urls order discover = Inr urls"
  shows "if urls \<noteq> [] \<and> db_up w \<and> \<not> list_ex (\<lambda>u. CHR 0x00 \<in> set u) urls \<and>
            length (filter (\<lambda>u. u \<notin> stored_urls w) urls) \<le> max_map_length
         then snd (snd (naver_news_scraping_dag_with_db order discover fetch w)) =
                snd (expand fetch (log_call (SelectExisting urls) w)
                       (filter (\<lambda>u. u \<notin> stored_urls w) urls))
         else naver_news (snd (snd (naver_news_scraping_dag_with_db order discover fetch w))) =
                naver_news w"
proof (cases "filter_new_urls w urls")
  case (Pair r w1)
  note c = filter_new_urls_cases [OF Pair]
  show ?thesis
  proof (cases r)
    case (Inl e)
    with Pair c assms show ?thesis by (auto simp: dag_no_fan_out)
  next
    case (Inr new)
    with c have new: "new = filter (\<lambda>u. u \<notin> stored_urls w) urls" by auto
    show ?thesis
    proof (cases "max_map_length < length new")
      case True
      with Pair Inr assms c new show ?thesis by (simp add: dag_too_long)
    next
      case short: False
      then have le: "length new \<le> max_map_length" by simp
      show ?thesis
      proof (cases "urls = []")
        case True
        with assms show ?thesis
          by (simp add: naver_news_scraping_dag_with_db_def filter_new_urls_empty)
      next
        case False
        with c Inr have up: "db_up w" and ok: "\<not> list_ex (\<lambda>u. CHR 0x00 \<in> set u) urls"
          by auto
        from filter_new_urls_up [OF up False ok] Pair
        have "w1 = log_call (SelectExisting urls) w" by simp
        with dag_fan_out [OF assms Pair [unfolded Inr] le, of fetch] False up ok le new
        show ?thesis by simp
      qed
    qed
  qed
qed

lemma dag_flags:
  "db_up (snd (snd (naver_news_scraping_dag_with_db order discover fetch w))) = db_up w \<and>
   insert_up (snd (snd (naver_news_scraping_dag_with_db order discover fetch w))) = insert_up w"
proof (cases "get_all_article_urls order discover")
  case (Inl e)
  then show ?thesis by (simp add: dag_raise)
next
  case (Inr urls)
  show ?thesis
  proof (cases "filter_new_urls w urls")
    case (Pair r w1)
    note c = filter_new_urls_cases [OF Pair]
    show ?thesis
    proof (cases r)
      case (Inl e)
      with Pair Inr c show ?thesis by (simp add: dag_no_fan_out)
    next
      case new: (Inr new)
      from expand_db_up [OF surjective_pairing, of fetch w1 new] c Pair new Inr
      show ?thesis
        by (cases "max_map_length < length new") (simp_all add: dag_fan_out dag_too_long)
    qed
  qed
qed

lemma get_all_article_urls_order:
  assumes "reorders order1" and "reorders order2"
    and "get_all_article_urls order1 discover = Inr urls1"
  shows "\<exists>urls2. get_all_article_urls order2 discover = Inr urls2 \<and> set urls2 = set urls1"
  using assms
  by (auto simp: get_all_article_urls_def list_of_set_set split: sum.splits)

lemma get_all_article_urls_order_raise:
  "get_all_article_urls order1 discover = Inl e \<Longrightarrow> get_all_article_urls order2 discover = Inl e"
  by (auto simp: get_all_article_urls_def split: sum.splits)

text \<open>
  C3. Running the pipeline a second time on the table the first run left, with the same
  listings and the same pages, leaves the table as the first run left it: the second run
  adds no record. The two runs may enumerate their candidates in different orders.
\<close>

theorem second_run_inserts_nothing:
  assumes "reorders order1" and "reorders order2"
    and "naver_news_scraping_dag_with_db order1 discover fetch w = (st1, outs1, w1)"
    and "naver_news_scraping_dag_with_db order2 discover fetch w1 = (st2, outs2, w2)"
  shows "naver_news w2 = naver_news w1"
proof (cases "get_all_article_urls order2 discover")
  case (Inl e)
  with assms(4) show ?thesis by (simp add: dag_raise)
next
  case (Inr urls2)
  from get_all_article_urls_order [OF assms(2,1) Inr] obtain urls1
    where u1: "get_all_article_urls order1 discover = Inr urls1" and eq: "set urls1 = set urls2"
    by blast
  note d1 = get_all_article_urls_set(1) [OF assms(1) u1]
  note d2 = get_all_article_urls_set(1) [OF assms(2) Inr]
  let ?new1 = "filter (\<lambda>u. u \<notin> stored_urls w) urls1"
  let ?new2 = "filter (\<lambda>u. u \<notin> stored_urls w1) urls2"
  let ?wa = "log_call (SelectExisting urls1) w"
  let ?wb = "log_call (SelectExisting urls2) w1"
  from dag_flags [of order1 discover fetch w] assms(3)
  have flags: "db_up w1 = db_up w" "insert_up w1 = insert_up w" by simp_all
  note e1 = dag_effect [OF u1, of w fetch, unfolded assms(3), simplified]
  note e2 = dag_effect [OF Inr, of w1 fetch, unfolded assms(4), simplified]
  show ?thesis
  proof (cases "urls2 \<noteq> [] \<and> db_up w1 \<and> \<not> list_ex (\<lambda>u. CHR 0x00 \<in> set u) urls2 \<and>
                length ?new2 \<le> max_map_length")
    case False
    with e2 show ?thesis by (simp split: if_splits)
  next
    case True
    with e2 have w2: "w2 = snd (expand fetch ?wb ?new2)" by (simp split: if_splits)
    show ?thesis
    proof (cases "insert_up w1")
      case down: False
      then have "\<not> insert_up ?wb" by simp
      from expand_down [OF surjective_pairing this] w2 show ?thesis by simp
    next
      case up: True
      from True eq have ne1: "urls1 \<noteq> []" by auto
      from True eq have ok1: "\<not> list_ex (\<lambda>u. CHR 0x00 \<in> set u) urls1"
        by (simp add: list_ex_iff)
      from True flags have dbup: "db_up w" by simp
      have le1: "length ?new1 \<le> max_map_length"
      proof (rule ccontr)
        assume "\<not> length ?new1 \<le> max_map_length"
        with e1 have "naver_news w1 = naver_news w" by (simp split: if_splits)
        then have "stored_urls w1 = stored_urls w" by (simp add: stored_urls_def)
        with eq have "set ?new2 = set ?new1" by simp
        moreover from d1 d2 have "distinct ?new1" "distinct ?new2" by simp_all
        ultimately have "length ?new2 = length ?new1" by (metis distinct_card)
        with True \<open>\<not> length ?new1 \<le> max_map_length\<close> show False by simp
      qed
      with e1 ne1 ok1 dbup have w1: "w1 = snd (expand fetch ?wa ?new1)" by simp
      have x1: "expand fetch ?wa ?new1 = (fst (expand fetch ?wa ?new1), w1)"
        by (simp add: w1)
      from up flags have upa: "insert_up ?wa" by simp
      have "naver_news (snd (expand fetch ?wb ?new2)) = naver_news ?wb"
      proof (rule expand_absorbed [OF surjective_pairing])
        fix u k
        assume m: "u \<in> set ?new2" and k: "insert_key fetch u = Some k"
        from expand_stored_mono [OF x1] have "stored_urls w \<subseteq> stored_urls w1" by simp
        with m eq have "u \<in> set ?new1" by auto
        from expand_stores [OF x1 upa this k] show "k \<in> stored_urls ?wb" by simp
      qed
      with w2 show ?thesis by simp
    qed
  qed
qed

lemma two_sections_urls_id: "get_all_article_urls id two_sections = Inr [''A'', ''B'', ''C'']"
  by (simp add: get_all_article_urls_def section_ids_def two_sections_def list_of_set_def)

lemma first_run_table:
  "naver_news (snd (snd (naver_news_scraping_dag_with_db id two_sections all_titled store_A))) =
     [stored_article ''A'' ''old headline'', stored_article ''B'' ''headline'',
      stored_article ''C'' ''headline'']"
  by (simp add: naver_news_scraping_dag_with_db_def two_sections_urls_id filter_new_urls_def
        get_records_def scrape_and_save_news_def insert_parameters_def dict_index_def
        dict_get_def no_title_def all_titled_def article_def stored_article_def store_A_def
        log_call_def max_map_length_def Let_def)

theorem second_run_inserts_nothing_witness:
  "reorders id \<and> reorders rev \<and>
   naver_news (snd (snd (naver_news_scraping_dag_with_db id two_sections all_titled store_A))) =
     [stored_article ''A'' ''old headline'', stored_article ''B'' ''headline'',
      stored_article ''C'' ''headline''] \<and>
   naver_news (snd (snd (naver_news_scraping_dag_with_db rev two_sections all_titled
       (snd (snd (naver_news_scraping_dag_with_db id two_sections all_titled store_A)))))) =
     [stored_article ''A'' ''old headline'', stored_article ''B'' ''headline'',
      stored_article ''C'' ''headline'']"
proof -
  let ?r1 = "naver_news_scraping_dag_with_db id two_sections all_titled store_A"
  let ?r2 = "naver_news_scraping_dag_with_db rev two_sections all_titled (snd (snd ?r1))"
  have 1: "?r1 = (fst ?r1, fst (snd ?r1), snd (snd ?r1))" by simp
  have 2: "?r2 = (fst ?r2, fst (snd ?r2), snd (snd ?r2))" by simp
  from second_run_inserts_nothing [OF reorders_id reorders_rev 1 2]
  have "naver_news (snd (snd ?r2)) = naver_news (snd (snd ?r1))" .
  with first_run_table reorders_id reorders_rev show ?thesis by simp
qed

section \<open>A section whose discovery raises\<close>

text \<open>
  C4, as claimed: a run in which the discovery of one section raises still returns the
  candidates of the other sections and completes successfully. It does not: with the
  listing of section 101 raising, \<open>get_all_article_urls\<close> raises that error instead of
  returning the identifiers of section 100, and the run fails with nothing done.
\<close>

theorem section_failure_fails_run_counterexample:
  "get_all_article_urls id section_101_down = Inl (SourceError ''timeout'') \<and>
   naver_news_scraping_dag_with_db id section_101_down all_titled store_A = (Failed, [], store_A)"
proof -
  have g: "get_all_article_urls id section_101_down = Inl (SourceError ''timeout'')"
    by (simp add: get_all_article_urls_def section_ids_def section_101_down_def two_sections_def)
  from g dag_raise [OF g] show ?thesis by simp
qed

text \<open>
  C4, amended. \<open>get_all_article_urls\<close> handles no exception. When the discovery of
  every section returns (an empty list included), it returns exactly the identifiers the
  sections listed. When the discovery of some section raises, the task raises as well and
  the run fails: no existence check, no ingestion unit, the world as it was.
\<close>

theorem discovery_returns_union_or_raises:
  assumes "reorders order"
  shows "((\<forall>s\<in>set section_ids. \<exists>urls. discover s = Inr urls) \<longrightarrow>
            (\<exists>all_urls. get_all_article_urls order discover = Inr all_urls \<and>
               set all_urls = (\<Union>s\<in>set section_ids. section_urls discover s))) \<and>
         ((\<exists>s\<in>set section_ids. \<exists>e. discover s = Inl e) \<longrightarrow>
            (\<exists>e. get_all_article_urls order discover = Inl e) \<and>
            naver_news_scraping_dag_with_db order discover fetch w = (Failed, [], w))"
proof (intro conjI impI)
  assume "\<forall>s\<in>set section_ids. \<exists>urls. discover s = Inr urls"
  then obtain xs where x: "extend_all discover section_ids [] = Inr xs"
    using extend_all_returns [of section_ids discover "[]"] by blast
  then have g: "get_all_article_urls order discover = Inr (list_of_set order xs)"
    by (simp add: get_all_article_urls_def)
  from get_all_article_urls_set(2) [OF assms g] g
  show "\<exists>all_urls. get_all_article_urls order discover = Inr all_urls \<and>
          set all_urls = (\<Union>s\<in>set section_ids. section_urls discover s)"
    by blast
next
  assume "\<exists>s\<in>set section_ids. \<exists>e. discover s = Inl e"
  then obtain s e where m: "s \<in> set section_ids" and d: "discover s = Inl e" by blast
  from extend_all_raises [of s section_ids discover e "[]", OF m d] obtain e'
    where "extend_all discover section_ids [] = Inl e'" by blast
  then have g: "get_all_article_urls order discover = Inl e'"
    by (simp add: get_all_article_urls_def)
  then show "\<exists>e. get_all_article_urls order discover = Inl e" by blast
  from dag_raise [OF g]
  show "naver_news_scraping_dag_with_db order discover fetch w = (Failed, [], w)" .
qed

theorem discovery_returns_union_or_raises_witness:
  "reorders rev \<and>
   two_sections 100 = Inr [''A'', ''B''] \<and> two_sections 101 = Inr [''B'', ''C''] \<and>
   two_sections 102 = Inr [] \<and> two_sections 103 = Inr [] \<and>
   two_sections 104 = Inr [] \<and> two_sections 105 = Inr [] \<and>
   (\<exists>all_urls. get_all_article_urls rev two_sections = Inr all_urls \<and>
      set all_urls = (\<Union>s\<in>set section_ids. section_urls two_sections s)) \<and>
   section_101_down 101 = Inl (SourceError ''timeout'') \<and>
   (\<exists>e. get_all_article_urls rev section_101_down = Inl e) \<and>
   naver_news_scraping_dag_with_db rev section_101_down all_titled store_A = (Failed, [], store_A)"
proof -
  have a: "\<forall>s\<in>set section_ids. \<exists>urls. two_sections s = Inr urls"
    by (simp add: two_sections_def)
  have b: "\<exists>s\<in>set section_ids. \<exists>e. section_101_down s = Inl e"
    by (simp add: section_ids_def section_101_down_def)
  have v: "two_sections 100 = Inr [''A'', ''B'']" "two_sections 101 = Inr [''B'', ''C'']"
    "two_sections 102 = Inr []" "two_sections 103 = Inr []"
    "two_sections 104 = Inr []" "two_sections 105 = Inr []"
    "section_101_down 101 = Inl (SourceError ''timeout'')"
    by (simp_all add: two_sections_def section_101_down_def)
  from discovery_returns_union_or_raises [OF reorders_rev, of two_sections all_titled store_A] a
  have 1: "\<exists>all_urls. get_all_article_urls rev two_sections = Inr all_urls \<and>
      set all_urls = (\<Union>s\<in>set section_ids. section_urls two_sections s)"
    by blast
  from discovery_returns_union_or_raises [OF reorders_rev, of section_101_down all_titled store_A] b
  have 2: "(\<exists>e. get_all_article_urls rev section_101_down = Inl e) \<and>
      naver_news_scraping_dag_with_db rev section_101_down all_titled store_A = (Failed, [], store_A)"
    by blast
  from 1 2 v reorders_rev show ?thesis by blast
qed

section \<open>The store cannot be reached\<close>

lemma expand_outcome:
  "expand fetch w us = (outs, w') \<Longrightarrow> u \<in> set us \<Longrightarrow>
   \<exists>r wa. (u, r) \<in> set outs \<and> r = fst (scrape_and_save_news fetch wa u) \<and>
          insert_up wa = insert_up w"
proof (induction us arbitrary: w outs w')
  case Nil
  then show ?case by simp
next
  case (Cons v us)
  from Cons.prems(1) obtain r w1 rs where
    1: "scrape_and_save_news fetch w v = (r, w1)" and 2: "expand fetch w1 us = (rs, w')"
    and o: "outs = (v, r) # rs"
    by (auto split: prod.splits)
  show ?case
  proof (cases "u = v")
    case True
    with 1 o show ?thesis by (intro exI [of _ r] exI [of _ w]) simp
  next
    case False
    with Cons.prems(2) have "u \<in> set us" by simp
    from Cons.IH [OF 2 this] scrape_cases [OF 1] o show ?thesis by auto
  qed
qed

lemma expand_outcome_from:
  "expand fetch w us = (outs, w') \<Longrightarrow> (u, r) \<in> set outs \<Longrightarrow>
   u \<in> set us \<and> (\<exists>wa. r = fst (scrape_and_save_news fetch wa u) \<and> insert_up wa = insert_up w)"
proof (induction us arbitrary: w outs w')
  case Nil
  then show ?case by simp
next
  case (Cons v us)
  from Cons.prems(1) obtain r1 w1 rs where
    1: "scrape_and_save_news fetch w v = (r1, w1)" and 2: "expand fetch w1 us = (rs, w')"
    and o: "outs = (v, r1) # rs"
    by (auto split: prod.splits)
  show ?case
  proof (cases "(u, r) = (v, r1)")
    case True
    with 1 show ?thesis by (auto intro: exI [of _ w])
  next
    case False
    with Cons.prems(2) o have "(u, r) \<in> set rs" by auto
    from Cons.IH [OF 2 this] scrape_cases [OF 1] show ?thesis by auto
  qed
qed

lemma raised_iff: "list_ex raised outs = (\<exists>u e. (u, Inl e) \<in> set outs)"
proof
  assume "list_ex raised outs"
  then obtain p where "p \<in> set outs" and "raised p" by (auto simp: list_ex_iff)
  then show "\<exists>u e. (u, Inl e) \<in> set outs" by (cases p rule: raised.cases) auto
next
  assume "\<exists>u e. (u, Inl e) \<in> set outs"
  then show "list_ex raised outs" by (force simp: list_ex_iff)
qed

text \<open>
  C9. Neither task handles a failure of the store. When the database cannot be reached
  by the existence check of a non-empty candidate list, the error leaves
  \<open>filter_new_urls\<close> and the run fails there, with no ingestion unit run. When it cannot
  be reached by the \<open>INSERT\<close>, the error leaves \<open>hook.run\<close> and the ingestion unit that
  called it, nothing is written, and the run is failed: a run whose existence check was
  answered and in which some unit reaches its \<open>INSERT\<close> with the store gone ends in the
  state failed, with that unit's outcome the store's error and the table as it was.
\<close>

theorem store_down_propagates:
  "(\<not> db_up w \<and> urls \<noteq> [] \<longrightarrow>
      fst (filter_new_urls w urls) = Inl StoreUnavailable \<and>
      naver_news (snd (filter_new_urls w urls)) = naver_news w) \<and>
   (\<not> db_up w \<and> get_all_article_urls order discover = Inr urls \<and> urls \<noteq> [] \<longrightarrow>
      naver_news_scraping_dag_with_db order discover fetch w =
        (Failed, [], log_call (SelectExisting urls) w)) \<and>
   (\<not> insert_up w \<longrightarrow>
      fst (hook_run_insert w ps) = Inl StoreUnavailable \<and>
      naver_news (snd (hook_run_insert w ps)) = naver_news w) \<and>
   (\<not> insert_up w \<and> fetch u = Inr (Some d) \<and> \<not> no_title d \<and> insert_parameters d = Inr ps \<longrightarrow>
      fst (scrape_and_save_news fetch w u) = Inl StoreUnavailable \<and>
      naver_news (snd (scrape_and_save_news fetch w u)) = naver_news w) \<and>
   (\<not> insert_up w \<and> get_all_article_urls order discover = Inr urls \<and>
    filter_new_urls w urls = (Inr new, wm) \<and> length new \<le> max_map_length \<and>
    u \<in> set new \<and> fetch u = Inr (Some d) \<and> \<not> no_title d \<and> insert_parameters d = Inr ps \<longrightarrow>
      fst (naver_news_scraping_dag_with_db order discover fetch w) = Failed \<and>
      (u, Inl StoreUnavailable) \<in> set (fst (snd (naver_news_scraping_dag_with_db order discover fetch w))) \<and>
      naver_news (snd (snd (naver_news_scraping_dag_with_db order discover fetch w))) = naver_news w)"
proof (intro conjI impI)
  assume "\<not> db_up w \<and> urls \<noteq> []"
  then show "fst (filter_new_urls w urls) = Inl StoreUnavailable"
    and "naver_news (snd (filter_new_urls w urls)) = naver_news w"
    by (simp_all add: filter_new_urls_down)
next
  assume "\<not> db_up w \<and> get_all_article_urls order discover = Inr urls \<and> urls \<noteq> []"
  then show "naver_news_scraping_dag_with_db order discover fetch w =
        (Failed, [], log_call (SelectExisting urls) w)"
    by (simp add: dag_no_fan_out [OF _ filter_new_urls_down])
next
  assume "\<not> insert_up w"
  then show "fst (hook_run_insert w ps) = Inl StoreUnavailable"
    and "naver_news (snd (hook_run_insert w ps)) = naver_news w"
    by (simp_all add: hook_run_insert_down)
next
  assume a: "\<not> insert_up w \<and> fetch u = Inr (Some d) \<and> \<not> no_title d \<and> insert_parameters d = Inr ps"
  then show "fst (scrape_and_save_news fetch w u) = Inl StoreUnavailable"
    by (simp add: scrape_reaches_insert hook_run_insert_down)
  from a show "naver_news (snd (scrape_and_save_news fetch w u)) = naver_news w"
    by (intro scrape_down [OF _ surjective_pairing]) simp
next
  assume a: "\<not> insert_up w \<and> get_all_article_urls order discover = Inr urls \<and>
    filter_new_urls w urls = (Inr new, wm) \<and> length new \<le> max_map_length \<and>
    u \<in> set new \<and> fetch u = Inr (Some d) \<and> \<not> no_title d \<and> insert_parameters d = Inr ps"
  then have g: "get_all_article_urls order discover = Inr urls"
    and f: "filter_new_urls w urls = (Inr new, wm)" and le: "length new \<le> max_map_length"
    and m: "u \<in> set new" and down: "\<not> insert_up w"
    and r: "fetch u = Inr (Some d)" "\<not> no_title d" "insert_parameters d = Inr ps"
    by simp_all
  note c = filter_new_urls_cases [OF f]
  from c down have downm: "\<not> insert_up wm" by simp
  note run = dag_fan_out [OF g f le, of fetch]
  from expand_outcome [OF surjective_pairing m, of fetch wm] obtain r' wa
    where o: "(u, r') \<in> set (fst (expand fetch wm new))"
      and r': "r' = fst (scrape_and_save_news fetch wa u)" and "insert_up wa = insert_up wm"
    by blast
  with downm have "\<not> insert_up wa" by simp
  with r r' have "r' = Inl StoreUnavailable"
    by (simp add: scrape_reaches_insert hook_run_insert_down)
  with o have o': "(u, Inl StoreUnavailable) \<in> set (fst (expand fetch wm new))" by simp
  then have "list_ex raised (fst (expand fetch wm new))" by (auto simp: raised_iff)
  with run show "fst (naver_news_scraping_dag_with_db order discover fetch w) = Failed"
    by simp
  from o' run
  show "(u, Inl StoreUnavailable) \<in> set (fst (snd (naver_news_scraping_dag_with_db order discover fetch w)))"
    by simp
  from expand_down [OF surjective_pairing downm, of fetch new] c run
  show "naver_news (snd (snd (naver_news_scraping_dag_with_db order discover fetch w))) = naver_news w"
    by simp
qed

lemma two_sections_filter:
  "filter_new_urls store_A_lost [''A'', ''B'', ''C''] =
     (Inr [''B'', ''C''], log_call (SelectExisting [''A'', ''B'', ''C'']) store_A_lost)"
proof -
  have "db_up store_A_lost" by (simp add: store_A_lost_def store_A_def)
  moreover have "stored_urls store_A_lost = {''A''}"
    by (simp add: store_A_lost_def store_A_def stored_urls_def stored_article_def)
  ultimately show ?thesis by (simp add: filter_new_urls_up)
qed

theorem store_down_propagates_witness:
  "db_up store_A_down = False \<and>
   fst (filter_new_urls store_A_down [''A'', ''B'', ''C'']) = Inl StoreUnavailable \<and>
   get_all_article_urls id two_sections = Inr [''A'', ''B'', ''C''] \<and>
   naver_news_scraping_dag_with_db id two_sections all_titled store_A_down =
     (Failed, [], log_call (SelectExisting [''A'', ''B'', ''C'']) store_A_down) \<and>
   db_up store_A_lost = True \<and> insert_up store_A_lost = False \<and>
   filter_new_urls store_A_lost [''A'', ''B'', ''C''] =
     (Inr [''B'', ''C''], log_call (SelectExisting [''A'', ''B'', ''C'']) store_A_lost) \<and>
   all_titled ''B'' = Inr (Some (article ''B'' ''headline'')) \<and>
   no_title (article ''B'' ''headline'') = False \<and>
   insert_parameters (article ''B'' ''headline'') =
     Inr (PyStr ''B'', PyStr ''headline'', PyNone, PyStr ''body'', PyStr ''2025-07-14 09:00'') \<and>
   fst (scrape_and_save_news all_titled store_A_lost ''B'') = Inl StoreUnavailable \<and>
   fst (naver_news_scraping_dag_with_db id two_sections all_titled store_A_lost) = Failed \<and>
   (''B'', Inl StoreUnavailable) \<in>
     set (fst (snd (naver_news_scraping_dag_with_db id two_sections all_titled store_A_lost))) \<and>
   naver_news (snd (snd (naver_news_scraping_dag_with_db id two_sections all_titled store_A_lost)))
     = naver_news store_A_lost"
proof -
  have h: "\<not> db_up store_A_down" "db_up store_A_lost" "\<not> insert_up store_A_lost"
    by (simp_all add: store_A_down_def store_A_lost_def store_A_def)
  have f: "all_titled ''B'' = Inr (Some (article ''B'' ''headline''))"
    by (simp add: all_titled_def)
  have t: "\<not> no_title (article ''B'' ''headline'')"
    by (simp add: no_title_def article_def dict_get_def)
  have p: "insert_parameters (article ''B'' ''headline'') =
     Inr (PyStr ''B'', PyStr ''headline'', PyNone, PyStr ''body'', PyStr ''2025-07-14 09:00'')"
    by (simp add: insert_parameters_def article_def dict_index_def)
  have l: "length [''B'', ''C''] \<le> max_map_length" by (simp add: max_map_length_def)
  note down = store_down_propagates [where w = store_A_down and urls = "[''A'', ''B'', ''C'']"
      and order = id and discover = two_sections and fetch = all_titled]
  note lost = store_down_propagates [where w = store_A_lost and urls = "[''A'', ''B'', ''C'']"
      and order = id and discover = two_sections and fetch = all_titled and u = "''B''"
      and d = "article ''B'' ''headline''" and new = "[''B'', ''C'']"
      and wm = "log_call (SelectExisting [''A'', ''B'', ''C'']) store_A_lost"
      and ps = "(PyStr ''B'', PyStr ''headline'', PyNone, PyStr ''body'', PyStr ''2025-07-14 09:00'')"]
  from down h two_sections_urls_id
  have 1: "fst (filter_new_urls store_A_down [''A'', ''B'', ''C'']) = Inl StoreUnavailable"
    and 2: "naver_news_scraping_dag_with_db id two_sections all_titled store_A_down =
     (Failed, [], log_call (SelectExisting [''A'', ''B'', ''C'']) store_A_down)"
    by simp_all
  from lost h f t p l two_sections_urls_id two_sections_filter
  have 3: "fst (scrape_and_save_news all_titled store_A_lost ''B'') = Inl StoreUnavailable"
    and 4: "fst (naver_news_scraping_dag_with_db id two_sections all_titled store_A_lost) = Failed"
    and 5: "(''B'', Inl StoreUnavailable) \<in>
     set (fst (snd (naver_news_scraping_dag_with_db id two_sections all_titled store_A_lost)))"
    and 6: "naver_news (snd (snd (naver_news_scraping_dag_with_db id two_sections all_titled store_A_lost)))
     = naver_news store_A_lost"
    by simp_all
  from 1 2 3 4 5 6 h f t p two_sections_urls_id two_sections_filter show ?thesis by simp
qed

section \<open>The outcomes of the mapped task\<close>

lemma insert_parameters_raise:
  "insert_parameters d = Inl e \<Longrightarrow> \<exists>k. e = KeyError k"
  by (auto simp: insert_parameters_def dict_index_def split: sum.splits option.splits)

lemma hook_run_insert_result:
  "fst (hook_run_insert w ps) = Inr () \<or> fst (hook_run_insert w ps) = Inl StoreUnavailable \<or>
   fst (hook_run_insert w ps) = Inl ValueError \<or> fst (hook_run_insert w ps) = Inl NotNullViolation"
  by (cases ps) (simp add: Let_def split: pyval.splits)

text \<open>What an ingestion unit returns or raises.\<close>

lemma scrape_result:
  "fst (scrape_and_save_news fetch w u) = Inr () \<or>
   (\<exists>e. fst (scrape_and_save_news fetch w u) = Inl e \<and>
      (fetch u = Inl e \<or> e = StoreUnavailable \<or> e = ValueError \<or> e = NotNullViolation \<or>
       (\<exists>k. e = KeyError k)))"
proof (cases "fetch u")
  case (Inl e)
  then show ?thesis by (simp add: scrape_and_save_news_def Let_def)
next
  case (Inr nd)
  show ?thesis
  proof (cases nd)
    case None
    with Inr show ?thesis by (simp add: scrape_and_save_news_def Let_def)
  next
    case (Some d)
    show ?thesis
    proof (cases "no_title d")
      case True
      with Some Inr show ?thesis by (simp add: scrape_and_save_news_def Let_def)
    next
      case False
      show ?thesis
      proof (cases "insert_parameters d")
        case (Inl e)
        with insert_parameters_raise [OF Inl] False Some Inr show ?thesis
          by (auto simp: scrape_and_save_news_def Let_def)
      next
        case ps: (Inr ps)
        from Inr Some False ps
        have "scrape_and_save_news fetch w u = hook_run_insert (log_call (Fetch u) w) ps"
          by (simp add: scrape_reaches_insert)
        with hook_run_insert_result [of "log_call (Fetch u) w" ps] show ?thesis by auto
      qed
    qed
  qed
qed

text \<open>Each unit runs on the world the units before it left, whatever they returned.\<close>

lemma expand_nth:
  "expand fetch w (pre @ u # post) = (outs, w') \<Longrightarrow>
   outs ! length pre = (u, fst (scrape_and_save_news fetch (snd (expand fetch w pre)) u))"
proof (induction pre arbitrary: w outs)
  case Nil
  then show ?case by (auto split: prod.splits)
next
  case (Cons v pre)
  from Cons.prems obtain r wa rs where
    1: "scrape_and_save_news fetch w v = (r, wa)"
    and 2: "expand fetch wa (pre @ u # post) = (rs, w')" and o: "outs = (v, r) # rs"
    by (auto split: prod.splits)
  from Cons.IH [OF 2] 1 o show ?case by (simp split: prod.splits)
qed

text \<open>
  C8, as claimed: a run that reaches the mapped task never fails, and its result tells,
  for each new identifier, whether it was inserted, already there, not found or not
  fetched. It does not. With the page of \<open>B\<close> failing to load, the exception leaves the
  ingestion unit of \<open>B\<close> and the run is failed; and the unit returns the same thing,
  nothing, for a URL that is already stored (\<open>A\<close>), for one it has just inserted (\<open>B\<close>)
  and for one it skipped for want of a title (\<open>C\<close>).
\<close>

theorem fetch_error_fails_run_counterexample:
  "fst (naver_news_scraping_dag_with_db id two_sections b_unfetchable store_A) = Failed \<and>
   fst (snd (naver_news_scraping_dag_with_db id two_sections b_unfetchable store_A)) =
     [(''B'', Inl (SourceError ''HTTP 500'')), (''C'', Inr ())] \<and>
   fst (scrape_and_save_news all_titled store_A ''A'') = Inr () \<and>
   fst (scrape_and_save_news all_titled store_A ''B'') = Inr () \<and>
   fst (scrape_and_save_news c_untitled store_A ''C'') = Inr ()"
  by (simp add: naver_news_scraping_dag_with_db_def two_sections_urls_id filter_new_urls_def
        get_records_def scrape_and_save_news_def insert_parameters_def dict_index_def
        dict_get_def no_title_def all_titled_def b_unfetchable_def c_untitled_def article_def
        stored_article_def store_A_def log_call_def max_map_length_def Let_def)

text \<open>
  C8, amended. A run reaches the mapped task when discovery and the existence check
  return and the list of new identifiers is within what Airflow maps over
  (\<open>max_map_length\<close>). Such a run has one outcome for each new identifier, in the order of
  the list. Every unit runs, on the world the units before it left and whatever they
  returned or raised: each new identifier is fetched (as often as it is in the list),
  and what a unit has to store is in the table at the end of the run, provided the
  store can be reached. An outcome is either a normal return, which carries no value
  (so that it does not tell an insertion from a conflict or from a page without title),
  or the exception that left the unit: the one the fetch raised, a \<open>KeyError\<close> of the
  dictionary, the driver's \<open>ValueError\<close>, or an error of the store. An exception fails the
  run: the run succeeds exactly when no unit raised.
\<close>

theorem fan_out_outcomes:
  assumes "get_all_article_urls order discover = Inr urls"
    and "filter_new_urls w urls = (Inr new, wm)"
    and "length new \<le> max_map_length"
    and "naver_news_scraping_dag_with_db order discover fetch w = (st, outs, w2)"
  shows "map fst outs = new \<and>
         (\<forall>pre u post. new = pre @ u # post \<longrightarrow>
            outs ! length pre =
              (u, fst (scrape_and_save_news fetch (snd (expand fetch wm pre)) u))) \<and>
         (\<forall>u. count_list (calls w2) (Fetch u) = count_list (calls w) (Fetch u) + count_list new u) \<and>
         (\<forall>u k. u \<in> set new \<and> insert_key fetch u = Some k \<and> insert_up w \<longrightarrow>
            k \<in> stored_urls w2) \<and>
         (\<forall>u r. (u, r) \<in> set outs \<longrightarrow>
            r = Inr () \<or>
            (\<exists>e. r = Inl e \<and>
               (fetch u = Inl e \<or> e = StoreUnavailable \<or> e = ValueError \<or>
                e = NotNullViolation \<or> (\<exists>k. e = KeyError k)))) \<and>
         (st = Failed) = (\<exists>u e. (u, Inl e) \<in> set outs) \<and>
         (st = Success) = (\<forall>u r. (u, r) \<in> set outs \<longrightarrow> r = Inr ())"
proof -
  from dag_fan_out [OF assms(1,2,3), of fetch] assms(4)
  have st: "st = (if list_ex raised outs then Failed else Success)"
    and e: "expand fetch wm new = (outs, w2)"
    by (simp_all add: prod_eq_iff)
  note c = filter_new_urls_cases [OF assms(2)]
  have k: "map fst outs = new" by (rule expand_keys [OF e])
  have n: "outs ! length pre = (u, fst (scrape_and_save_news fetch (snd (expand fetch wm pre)) u))"
    if "new = pre @ u # post" for pre u post
    using e unfolding that by (rule expand_nth)
  have f: "count_list (calls w2) (Fetch u) = count_list (calls w) (Fetch u) + count_list new u"
    for u
    using expand_fetch_count [OF e, of u] c by simp
  have s: "k \<in> stored_urls w2"
    if "u \<in> set new" "insert_key fetch u = Some k" "insert_up w" for u k
  proof -
    from that(3) c have "insert_up wm" by simp
    from expand_stores [OF e this that(1,2)] show ?thesis .
  qed
  have r: "r = Inr () \<or>
      (\<exists>e. r = Inl e \<and>
         (fetch u = Inl e \<or> e = StoreUnavailable \<or> e = ValueError \<or> e = NotNullViolation \<or>
          (\<exists>k. e = KeyError k)))"
    if "(u, r) \<in> set outs" for u r
  proof -
    from expand_outcome_from [OF e that] obtain wa
      where "r = fst (scrape_and_save_news fetch wa u)" by blast
    with scrape_result [of fetch wa u] show ?thesis by simp
  qed
  have x: "(st = Failed) = (\<exists>u e. (u, Inl e) \<in> set outs)"
    using st by (simp add: raised_iff)
  have y: "(st = Success) = (\<forall>u r. (u, r) \<in> set outs \<longrightarrow> r = Inr ())"
  proof -
    have "(\<forall>u r. (u, r) \<in> set outs \<longrightarrow> r = Inr ()) = (\<not> (\<exists>u e. (u, Inl e) \<in> set outs))"
    proof
      assume a: "\<forall>u r. (u, r) \<in> set outs \<longrightarrow> r = Inr ()"
      show "\<not> (\<exists>u e. (u, Inl e) \<in> set outs)"
      proof
        assume "\<exists>u e. (u, Inl e) \<in> set outs"
        then obtain u e where "(u, Inl e) \<in> set outs" by blast
        with a have "(Inl e :: error + unit) = Inr ()" by blast
        then show False by simp
      qed
    next
      assume n: "\<not> (\<exists>u e. (u, Inl e) \<in> set outs)"
      show "\<forall>u r. (u, r) \<in> set outs \<longrightarrow> r = Inr ()"
      proof (intro allI impI)
        fix u r
        assume m: "(u, r) \<in> set outs"
        show "r = Inr ()"
        proof (cases r)
          case (Inl e)
          with m n show ?thesis by blast
        next
          case (Inr v)
          then show ?thesis by simp
        qed
      qed
    qed
    with st show ?thesis by (simp add: raised_iff)
  qed
  from k n f s r x y show ?thesis by blast
qed

lemma store_A_filter:
  "filter_new_urls store_A [''A'', ''B'', ''C''] =
     (Inr [''B'', ''C''], log_call (SelectExisting [''A'', ''B'', ''C'']) store_A)"
proof -
  have "db_up store_A" by (simp add: store_A_def)
  moreover have "stored_urls store_A = {''A''}"
    by (simp add: store_A_def stored_urls_def stored_article_def)
  ultimately show ?thesis by (simp add: filter_new_urls_up)
qed

theorem fan_out_outcomes_witness:
  "get_all_article_urls id two_sections = Inr [''A'', ''B'', ''C''] \<and>
   filter_new_urls store_A [''A'', ''B'', ''C''] =
     (Inr [''B'', ''C''], log_call (SelectExisting [''A'', ''B'', ''C'']) store_A) \<and>
   length [''B'', ''C''] \<le> max_map_length \<and>
   fst (snd (naver_news_scraping_dag_with_db id two_sections b_unfetchable store_A)) =
     [(''B'', Inl (SourceError ''HTTP 500'')), (''C'', Inr ())] \<and>
   b_unfetchable ''B'' = Inl (SourceError ''HTTP 500'') \<and>
   fst (naver_news_scraping_dag_with_db id two_sections b_unfetchable store_A) = Failed \<and>
   insert_key b_unfetchable ''C'' = Some ''C'' \<and> insert_up store_A \<and>
   ''C'' \<in> stored_urls (snd (snd (naver_news_scraping_dag_with_db id two_sections b_unfetchable store_A))) \<and>
   count_list (calls (snd (snd (naver_news_scraping_dag_with_db id two_sections b_unfetchable store_A))))
     (Fetch ''C'') = 1"
proof -
  let ?r = "naver_news_scraping_dag_with_db id two_sections b_unfetchable store_A"
  have t: "?r = (fst ?r, fst (snd ?r), snd (snd ?r))" by simp
  have l: "length [''B'', ''C''] \<le> max_map_length" by (simp add: max_map_length_def)
  have o: "fst (snd ?r) = [(''B'', Inl (SourceError ''HTTP 500'')), (''C'', Inr ())]"
    and x: "fst ?r = Failed"
    by (simp_all add: naver_news_scraping_dag_with_db_def two_sections_urls_id filter_new_urls_def
        get_records_def scrape_and_save_news_def insert_parameters_def dict_index_def
        dict_get_def no_title_def all_titled_def b_unfetchable_def article_def
        stored_article_def store_A_def log_call_def max_map_length_def Let_def)
  have b: "b_unfetchable ''B'' = Inl (SourceError ''HTTP 500'')"
    by (simp add: b_unfetchable_def)
  have i: "insert_key b_unfetchable ''C'' = Some ''C''"
    by (simp add: insert_key_def b_unfetchable_def all_titled_def article_def no_title_def
          dict_get_def insert_parameters_def dict_index_def)
  have up: "insert_up store_A" and c0: "calls store_A = []" by (simp_all add: store_A_def)
  note th = fan_out_outcomes [OF two_sections_urls_id store_A_filter l t]
  note f = th [THEN conjunct2, THEN conjunct2, THEN conjunct1]
  note a = th [THEN conjunct2, THEN conjunct2, THEN conjunct2, THEN conjunct1]
  from a [rule_format, of "''C''" "''C''"] i up
  have 1: "''C'' \<in> stored_urls (snd (snd ?r))" by simp
  from f [rule_format, of "''C''"] c0
  have 2: "count_list (calls (snd (snd ?r))) (Fetch ''C'') = 1" by simp
  from 1 2 two_sections_urls_id store_A_filter l o x b i up show ?thesis by simp
qed

end
